theory Spec2Isabelle
  imports Main "HOL-Library.Word"
begin

section \<open>The replicator of an OrbitDB store (stores/replicator/replicator.go)\<close>

subsection \<open>Data\<close>

text \<open>
  A content hash (\<open>cid.Cid\<close>) is used through its \<open>String()\<close> form only: the maps of the
  replicator are keyed by \<open>h.String()\<close> and hold \<open>h\<close> itself.
\<close>

type_synonym cid = string

text \<open>
  An entry of a fetched log: its own hash and its next pointers (\<open>GetNext()\<close>).
  A fetched \<open>ipfslog.Log\<close> is read through \<open>Values()\<close> only: the list of its entries.
\<close>

record entry =
  hash :: cid
  nexts :: "cid list"

type_synonym log = "entry list"

datatype error = Error string | Wrap error string

text \<open>The three events the replicator emits, with the data the source passes to them.\<close>

datatype event =
    EventLoadAdded cid
  | EventLoadProgress cid "entry option" nat
  | EventLoadEnd "log list"

text \<open>
  A \<open>context.Context\<close> is read for one thing: whether it has been cancelled.
\<close>

type_synonym ctx = bool

text \<open>
  The collaborators behind \<open>storeInterface\<close> and the Go runtime, as far as the replicator
  reads them:
  \<^item> \<open>oplog\<close>: the hashes of the entries of the local op-log (\<open>OpLog().GetEntries()\<close> in
    \<open>Load\<close>, \<open>OpLog().Values()\<close> in \<open>processOne\<close>);
  \<^item> \<open>NewFromEntryHash\<close>: the fetch of one log from the content store, under a context;
  \<^item> \<open>rangeQueue\<close>, \<open>rangeItems\<close>: the order in which Go's \<open>range\<close> visits the keys of
    the map \<open>r.queue\<close> (in \<open>queueSlice\<close>) and of the map \<open>items\<close> (in \<open>processQueue\<close>);
    the language leaves it unspecified.
\<close>

record store =
  oplog :: "cid set"
  NewFromEntryHash :: "ctx \<Rightarrow> cid \<Rightarrow> error + log"
  rangeQueue :: "cid list \<Rightarrow> cid list"
  rangeItems :: "cid list \<Rightarrow> cid list"

text \<open>
  The struct \<open>replicator\<close>. The maps \<open>fetching\<close> and \<open>queue\<close> are the lists of their
  keys, in order of insertion and without repetition; \<open>uint\<close> is a 64-bit word;
  \<open>cancelled\<close> is the state of the context whose \<open>cancelFunc\<close> the struct holds;
  \<open>emitted\<close> is the sequence of events passed to \<open>Emit\<close> of the embedded emitter.
\<close>

record replicator =
  cancelled :: bool
  fetching :: "cid list"
  statsTasksRequested :: "64 word"
  statsTasksStarted :: "64 word"
  statsTasksProcessed :: "64 word"
  buffer :: "log list"
  concurrency :: "64 word"
  queue :: "cid list"
  emitted :: "event list"

subsection \<open>Maps as key lists\<close>

text \<open>\<open>m[k] = v\<close> on a map whose value is its key: a new key is added, an old one stays.\<close>

definition mapPut :: "cid \<Rightarrow> cid list \<Rightarrow> cid list" where
  "mapPut h m = (if h \<in> set m then m else m @ [h])"

text \<open>\<open>delete(m, k)\<close>.\<close>

definition mapDelete :: "cid \<Rightarrow> cid list \<Rightarrow> cid list" where
  "mapDelete h m = removeAll h m"

subsection \<open>Operations\<close>

definition Emit :: "event \<Rightarrow> replicator \<Rightarrow> replicator" where
  "Emit e r = r\<lparr>emitted := emitted r @ [e]\<rparr>"

definition GetBufferLen :: "replicator \<Rightarrow> nat" where
  "GetBufferLen r = length (buffer r)"

definition Stop :: "replicator \<Rightarrow> replicator" where
  "Stop r = r\<lparr>cancelled := True\<rparr>"

definition NewReplicator :: "ctx \<Rightarrow> 64 word \<Rightarrow> replicator" where
  "NewReplicator c n =
     \<lparr>cancelled = c, fetching = [], statsTasksRequested = 0, statsTasksStarted = 0,
      statsTasksProcessed = 0, buffer = [],
      concurrency = (if n = 0 then 128 else n), queue = [], emitted = []\<rparr>"

definition tasksRunning :: "replicator \<Rightarrow> 64 word" where
  "tasksRunning r = statsTasksStarted r - statsTasksProcessed r"

definition tasksRequested :: "replicator \<Rightarrow> 64 word" where
  "tasksRequested r = statsTasksRequested r"

definition tasksFinished :: "replicator \<Rightarrow> 64 word" where
  "tasksFinished r = statsTasksProcessed r"

definition queueSlice :: "store \<Rightarrow> replicator \<Rightarrow> cid list" where
  "queueSlice st r = rangeQueue st (queue r)"

definition addToQueue :: "cid \<Rightarrow> replicator \<Rightarrow> replicator" where
  "addToQueue h r =
     r\<lparr>statsTasksRequested := statsTasksRequested r + 1, queue := mapPut h (queue r)\<rparr>"

text \<open>\<open>l.Values().At(0)\<close>: the first entry of the fetched log, if there is one.\<close>

definition At0 :: "log \<Rightarrow> entry option" where
  "At0 l = (case l of [] \<Rightarrow> None | e # _ \<Rightarrow> Some e)"

text \<open>
  \<open>processOne\<close> returns the next pointers, or the wrapped error of the fetch. The two
  returns \<open>nil, nil\<close> and an empty \<open>nextValues\<close> are both \<open>Inr []\<close>: the caller reads the
  length only.
\<close>

definition processOne :: "store \<Rightarrow> ctx \<Rightarrow> cid \<Rightarrow> replicator \<Rightarrow> replicator \<times> (error + cid list)" where
  "processOne st c h r =
     (let isFetching = h \<in> set (fetching r);
          hasEntry = h \<in> oplog st
      in if hasEntry \<or> isFetching then (r, Inr [])
         else
           let r1 = r\<lparr>fetching := mapPut h (fetching r)\<rparr>;
               r2 = Emit (EventLoadAdded h) r1;
               r3 = r2\<lparr>statsTasksStarted := statsTasksStarted r2 + 1\<rparr>
           in case NewFromEntryHash st c h of
                Inl err \<Rightarrow> (r3, Inl (Wrap err ''unable to fetch log''))
              | Inr l \<Rightarrow>
                  let r4 = r3\<lparr>buffer := buffer r3 @ [l]\<rparr>;
                      latest = At0 l;
                      r5 = r4\<lparr>queue := mapDelete h (queue r4)\<rparr>;
                      r6 = r5\<lparr>statsTasksProcessed := statsTasksProcessed r5 + 1\<rparr>;
                      b = buffer r6;
                      r7 = Emit (EventLoadProgress h latest (length b)) r6;
                      nextValues = concat (map nexts l)
                  in (r7, Inr nextValues))"

text \<open>
  The first loop of \<open>processQueue\<close>, over the selected hashes: each is deleted from the
  queue and processed; an error ends \<open>processQueue\<close> at once (\<open>None\<close> in the second
  component), otherwise the next pointers are collected in \<open>hashesList\<close>.
\<close>

fun processItems ::
  "store \<Rightarrow> ctx \<Rightarrow> cid list \<Rightarrow> cid list list \<Rightarrow> replicator \<Rightarrow> replicator \<times> cid list list option" where
  "processItems st c [] hashesList r = (r, Some hashesList)"
| "processItems st c (e # es) hashesList r =
     (let r1 = r\<lparr>queue := mapDelete e (queue r)\<rparr>
      in case processOne st c e r1 of
           (r2, Inl err) \<Rightarrow> (r2, None)
         | (r2, Inr hashes) \<Rightarrow> processItems st c es (hashesList @ [hashes]) r2)"

text \<open>The body of the loop of \<open>Load\<close>: the check of one hash, and \<open>addToQueue\<close>.\<close>

definition loadOne :: "store \<Rightarrow> replicator \<Rightarrow> cid \<Rightarrow> replicator" where
  "loadOne st r h =
     (let inLog = h \<in> oplog st;
          fetching = h \<in> set (fetching r);
          queued = h \<in> set (queue r)
      in if fetching \<or> queued \<or> inLog then r else addToQueue h r)"

text \<open>The hashes \<open>processQueue\<close> selects: the map \<open>items\<close>, as the list of its keys.\<close>

definition selectItems :: "store \<Rightarrow> replicator \<Rightarrow> cid list" where
  "selectItems st r =
     (let capacity = concurrency r - tasksRunning r;
          slicedQueue = queueSlice st r;
          capacity = (if (of_nat (length slicedQueue) :: 64 word) < capacity
                      then of_nat (length slicedQueue) else capacity)
      in foldl (\<lambda>items h. mapPut h items) [] (take (unat capacity) slicedQueue))"

text \<open>The test of the second loop of \<open>processQueue\<close>, and the flush it guards.\<close>

definition flushBuffer :: "nat \<Rightarrow> replicator \<Rightarrow> replicator" where
  "flushBuffer lenItems r =
     (let b = buffer r
      in if (lenItems > 0 \<and> length b > 0) \<or> (tasksRunning r = 0 \<and> length b > 0)
         then Emit (EventLoadEnd b) (r\<lparr>buffer := []\<rparr>)
         else r)"

text \<open>
  \<open>processQueue\<close> and \<open>Load\<close> call each other. The first argument bounds the depth of
  these calls: \<open>None\<close> is a traversal that did not return within it.
\<close>

fun processQueue :: "nat \<Rightarrow> store \<Rightarrow> ctx \<Rightarrow> replicator \<Rightarrow> replicator option"
and loadEndLoop :: "nat \<Rightarrow> store \<Rightarrow> ctx \<Rightarrow> nat \<Rightarrow> cid list list \<Rightarrow> replicator \<Rightarrow> replicator option"
and Load :: "nat \<Rightarrow> store \<Rightarrow> ctx \<Rightarrow> cid list \<Rightarrow> replicator \<Rightarrow> replicator option" where
  "processQueue 0 st c r = None"
| "processQueue (Suc n) st c r =
     (if tasksRunning r \<ge> concurrency r then Some r
      else
        let items = selectItems st r
        in case processItems st c (rangeItems st items) [] r of
             (r1, None) \<Rightarrow> Some r1
           | (r1, Some hashesList) \<Rightarrow> loadEndLoop n st c (length items) hashesList r1)"
| "loadEndLoop n st c lenItems [] r = Some r"
| "loadEndLoop n st c lenItems (hashes # rest) r =
     (let r1 = flushBuffer lenItems r
      in if length hashes > 0
         then (case Load n st c hashes r1 of
                 None \<Rightarrow> None
               | Some r2 \<Rightarrow> loadEndLoop n st c lenItems rest r2)
         else loadEndLoop n st c lenItems rest r1)"
| "Load n st c cids r = processQueue n st c (foldl (loadOne st) r cids)"

text \<open>
  One turn of the loop of the goroutine that \<open>NewReplicator\<close> starts: \<open>Exit\<close> when the
  context is done, otherwise the timer fires (a cancelled context is ready at once, the
  timer after three seconds).
\<close>

datatype wake = Exit | Continue replicator

definition watchdogWake :: "nat \<Rightarrow> store \<Rightarrow> replicator \<Rightarrow> wake option" where
  "watchdogWake n st r =
     (if cancelled r then Some Exit
      else
        let qLen = length (queue r)
        in if tasksRunning r = 0 \<and> qLen > 0
           then map_option Continue (processQueue n st (cancelled r) r)
           else Some (Continue r))"

text \<open>
  The goroutine over a number of turns of its loop: it ends at the first \<open>Exit\<close>.
\<close>

fun watchdog :: "nat \<Rightarrow> nat \<Rightarrow> store \<Rightarrow> replicator \<Rightarrow> replicator option" where
  "watchdog 0 n st r = Some r"
| "watchdog (Suc k) n st r =
     (case watchdogWake n st r of
        None \<Rightarrow> None
      | Some Exit \<Rightarrow> Some r
      | Some (Continue r') \<Rightarrow> watchdog k n st r')"

subsection \<open>What the statements below speak about\<close>

text \<open>
  Go's \<open>range\<close> over a map visits every key once, in some order: the two orders of the
  store are rearrangements of the keys they are given.
\<close>

definition rangeVisitsKeys :: "store \<Rightarrow> bool" where
  "rangeVisitsKeys st \<longleftrightarrow>
     (\<forall>m. set (rangeQueue st m) = set m \<and> length (rangeQueue st m) = length m \<and>
          set (rangeItems st m) = set m \<and> length (rangeItems st m) = length m)"

text \<open>The hashes of the \<open>EventLoadAdded\<close> events of a trace, in order.\<close>

definition loadAdded :: "event list \<Rightarrow> cid list" where
  "loadAdded es = concat (map (\<lambda>e. case e of EventLoadAdded h \<Rightarrow> [h] | _ \<Rightarrow> []) es)"

text \<open>The hashes of the \<open>EventLoadProgress\<close> events of a trace, in order.\<close>

definition loadProgress :: "event list \<Rightarrow> cid list" where
  "loadProgress es = concat (map (\<lambda>e. case e of EventLoadProgress h _ _ \<Rightarrow> [h] | _ \<Rightarrow> []) es)"

text \<open>The batches of the \<open>EventLoadEnd\<close> events of a trace, in order.\<close>

definition loadEnd :: "event list \<Rightarrow> log list list" where
  "loadEnd es = concat (map (\<lambda>e. case e of EventLoadEnd b \<Rightarrow> [b] | _ \<Rightarrow> []) es)"










subsection \<open>Stores of the scenarios\<close>

text \<open>
  A content store that serves one entry per hash (\<open>batchSize = 1\<close>) from a table of next
  pointers, fails on a hash the table lacks, and fails under a cancelled context.
\<close>

definition fetchFrom :: "(cid \<Rightarrow> cid list option) \<Rightarrow> ctx \<Rightarrow> cid \<Rightarrow> error + log" where
  "fetchFrom g c h =
     (if c then Inl (Error ''context canceled'')
      else case g h of
             None \<Rightarrow> Inl (Error ''not found'')
           | Some ns \<Rightarrow> Inr [\<lparr>hash = h, nexts = ns\<rparr>])"

text \<open>Scenario A: \<open>h2\<close> points to \<open>h4\<close>, nothing else points anywhere.\<close>

definition historyA :: "cid \<Rightarrow> cid list option" where
  "historyA h = (if h = ''h2'' then Some [''h4''] else Some [])"

definition storeA :: store where
  "storeA = \<lparr>oplog = {}, NewFromEntryHash = fetchFrom historyA,
             rangeQueue = (\<lambda>m. m), rangeItems = (\<lambda>m. m)\<rparr>"

text \<open>
  The same store where \<open>range\<close> over a queue of three keys visits the third before the
  second.
\<close>

definition storeA' :: store where
  "storeA' = storeA\<lparr>rangeQueue := (\<lambda>m. case m of [a, b, c] \<Rightarrow> [a, c, b] | _ \<Rightarrow> m)\<rparr>"

text \<open>Scenario B: \<open>h1\<close> is in the local log already.\<close>

definition storeB :: store where
  "storeB = storeA\<lparr>oplog := {''h1''}\<rparr>"

text \<open>Scenario C: the fetch of \<open>h1\<close> fails.\<close>

definition historyC :: "cid \<Rightarrow> cid list option" where
  "historyC h = (if h = ''h1'' then None else Some [])"

definition storeC :: store where
  "storeC = storeA\<lparr>NewFromEntryHash := fetchFrom historyC\<rparr>"

text \<open>
  Scenario A under \<open>storeA'\<close>, with ceiling 2: the replicator when \<open>Load\<close> of
  \<open>h1\<close>, \<open>h2\<close>, \<open>h3\<close> returns (\<open>h2\<close> is still queued), and after the next turn of the
  goroutine.
\<close>

definition stalledA :: replicator where
  "stalledA =
     \<lparr>cancelled = False, fetching = [''h1'', ''h3''], statsTasksRequested = 3,
      statsTasksStarted = 2, statsTasksProcessed = 2, buffer = [], concurrency = 2,
      queue = [''h2''],
      emitted = [EventLoadAdded ''h1'',
                 EventLoadProgress ''h1'' (Some \<lparr>hash = ''h1'', nexts = []\<rparr>) 1,
                 EventLoadAdded ''h3'',
                 EventLoadProgress ''h3'' (Some \<lparr>hash = ''h3'', nexts = []\<rparr>) 2,
                 EventLoadEnd [[\<lparr>hash = ''h1'', nexts = []\<rparr>], [\<lparr>hash = ''h3'', nexts = []\<rparr>]]]\<rparr>"

definition finalA :: replicator where
  "finalA =
     \<lparr>cancelled = False, fetching = [''h1'', ''h3'', ''h2'', ''h4''], statsTasksRequested = 4,
      statsTasksStarted = 4, statsTasksProcessed = 4, buffer = [], concurrency = 2,
      queue = [],
      emitted = [EventLoadAdded ''h1'',
                 EventLoadProgress ''h1'' (Some \<lparr>hash = ''h1'', nexts = []\<rparr>) 1,
                 EventLoadAdded ''h3'',
                 EventLoadProgress ''h3'' (Some \<lparr>hash = ''h3'', nexts = []\<rparr>) 2,
                 EventLoadEnd [[\<lparr>hash = ''h1'', nexts = []\<rparr>], [\<lparr>hash = ''h3'', nexts = []\<rparr>]],
                 EventLoadAdded ''h2'',
                 EventLoadProgress ''h2'' (Some \<lparr>hash = ''h2'', nexts = [''h4'']\<rparr>) 1,
                 EventLoadEnd [[\<lparr>hash = ''h2'', nexts = [''h4'']\<rparr>]],
                 EventLoadAdded ''h4'',
                 EventLoadProgress ''h4'' (Some \<lparr>hash = ''h4'', nexts = []\<rparr>) 1,
                 EventLoadEnd [[\<lparr>hash = ''h4'', nexts = []\<rparr>]]]\<rparr>"

text \<open>
  Scenario C with ceiling 1: the replicator when \<open>Load\<close> of \<open>h1\<close>, \<open>h2\<close> returns
  after the fetch of \<open>h1\<close> failed.
\<close>

definition stuckC :: replicator where
  "stuckC =
     \<lparr>cancelled = False, fetching = [''h1''], statsTasksRequested = 2,
      statsTasksStarted = 1, statsTasksProcessed = 0, buffer = [], concurrency = 1,
      queue = [''h2''], emitted = [EventLoadAdded ''h1'']\<rparr>"

text \<open>
  Scenario C with the default ceiling: the replicator when the loop of \<open>Load\<close> has
  enqueued \<open>h2\<close>, \<open>h1\<close>, \<open>h3\<close>, and when \<open>Load\<close> returns: \<open>h2\<close> was fetched, the
  fetch of \<open>h1\<close> failed, \<open>h3\<close> was not attempted.
\<close>

definition queuedC :: replicator where
  "queuedC =
     \<lparr>cancelled = False, fetching = [], statsTasksRequested = 3,
      statsTasksStarted = 0, statsTasksProcessed = 0, buffer = [], concurrency = 128,
      queue = [''h2'', ''h1'', ''h3''], emitted = []\<rparr>"

definition abortedC :: replicator where
  "abortedC =
     \<lparr>cancelled = False, fetching = [''h2'', ''h1''], statsTasksRequested = 3,
      statsTasksStarted = 2, statsTasksProcessed = 1,
      buffer = [[\<lparr>hash = ''h2'', nexts = []\<rparr>]], concurrency = 128,
      queue = [''h3''],
      emitted = [EventLoadAdded ''h2'',
                 EventLoadProgress ''h2'' (Some \<lparr>hash = ''h2'', nexts = []\<rparr>) 1,
                 EventLoadAdded ''h1'']\<rparr>"


declare processQueue.simps [simp del] loadEndLoop.simps [simp del] Load.simps [simp del]

section \<open>Properties\<close>

subsection \<open>The three outcomes of processOne\<close>

lemma processOne_skip:
  "h \<in> oplog st \<or> h \<in> set (fetching r) \<Longrightarrow> processOne st c h r = (r, Inr [])"
  by (auto simp: processOne_def)

lemma processOne_fail:
  "h \<notin> oplog st \<Longrightarrow> h \<notin> set (fetching r) \<Longrightarrow> NewFromEntryHash st c h = Inl err \<Longrightarrow>
   processOne st c h r =
     (r\<lparr>fetching := fetching r @ [h], emitted := emitted r @ [EventLoadAdded h],
        statsTasksStarted := statsTasksStarted r + 1\<rparr>,
      Inl (Wrap err ''unable to fetch log''))"
  by (simp add: processOne_def mapPut_def Emit_def)

lemma processOne_ok:
  "h \<notin> oplog st \<Longrightarrow> h \<notin> set (fetching r) \<Longrightarrow> NewFromEntryHash st c h = Inr l \<Longrightarrow>
   processOne st c h r =
     (r\<lparr>fetching := fetching r @ [h],
        emitted := emitted r @ [EventLoadAdded h,
                     EventLoadProgress h (At0 l) (Suc (length (buffer r)))],
        statsTasksStarted := statsTasksStarted r + 1,
        buffer := buffer r @ [l],
        queue := removeAll h (queue r),
        statsTasksProcessed := statsTasksProcessed r + 1\<rparr>,
      Inr (concat (map nexts l)))"
  by (simp add: processOne_def mapPut_def mapDelete_def Emit_def Let_def)

lemma processOne_cases:
  obtains (skip) "h \<in> oplog st \<or> h \<in> set (fetching r)" "processOne st c h r = (r, Inr [])"
  | (fail) err where "h \<notin> oplog st" "h \<notin> set (fetching r)" "NewFromEntryHash st c h = Inl err"
      "processOne st c h r =
         (r\<lparr>fetching := fetching r @ [h], emitted := emitted r @ [EventLoadAdded h],
            statsTasksStarted := statsTasksStarted r + 1\<rparr>,
          Inl (Wrap err ''unable to fetch log''))"
  | (ok) l where "h \<notin> oplog st" "h \<notin> set (fetching r)" "NewFromEntryHash st c h = Inr l"
      "processOne st c h r =
         (r\<lparr>fetching := fetching r @ [h],
            emitted := emitted r @ [EventLoadAdded h,
                         EventLoadProgress h (At0 l) (Suc (length (buffer r)))],
            statsTasksStarted := statsTasksStarted r + 1,
            buffer := buffer r @ [l],
            queue := removeAll h (queue r),
            statsTasksProcessed := statsTasksProcessed r + 1\<rparr>,
          Inr (concat (map nexts l)))"
proof (cases "h \<in> oplog st \<or> h \<in> set (fetching r)")
  case True
  then show ?thesis using skip processOne_skip by blast
next
  case False
  then have a: "h \<notin> oplog st" "h \<notin> set (fetching r)" by auto
  show ?thesis
  proof (cases "NewFromEntryHash st c h")
    case (Inl err)
    then show ?thesis using fail [OF a Inl] processOne_fail [OF a Inl] by blast
  next
    case (Inr l)
    then show ?thesis using ok [OF a Inr] processOne_ok [OF a Inr] by blast
  qed
qed

lemma flushBuffer_eq:
  "flushBuffer k r =
     (if buffer r \<noteq> [] \<and> (0 < k \<or> tasksRunning r = 0)
      then r\<lparr>buffer := [], emitted := emitted r @ [EventLoadEnd (buffer r)]\<rparr> else r)"
  by (auto simp: flushBuffer_def Emit_def Let_def)

lemma loadOne_eq:
  "loadOne st r h =
     (if h \<in> set (fetching r) \<or> h \<in> set (queue r) \<or> h \<in> oplog st then r
      else r\<lparr>statsTasksRequested := statsTasksRequested r + 1, queue := queue r @ [h]\<rparr>)"
  by (simp add: loadOne_def addToQueue_def mapPut_def)



subsection \<open>Relations kept by every step of a traversal\<close>

lemma foldl_rel:
  assumes "\<And>r. Q r r" and "\<And>a b c. Q a b \<Longrightarrow> Q b c \<Longrightarrow> Q a c" and "\<And>r h. Q r (f r h)"
  shows "Q r (foldl f r xs)"
proof (induction xs arbitrary: r)
  case Nil show ?case by (simp add: assms(1))
next
  case (Cons x xs)
  have a: "Q r (f r x)" by (rule assms(3))
  have b: "Q (f r x) (foldl f (f r x) xs)" by (rule Cons.IH)
  show ?case using assms(2) [OF a b] by simp
qed

lemma traversal_rel:
  assumes rfl: "\<And>st r. Q st r r"
    and trn: "\<And>st a b c. Q st a b \<Longrightarrow> Q st b c \<Longrightarrow> Q st a c"
    and items: "\<And>st c r r1 x. \<not> concurrency r \<le> tasksRunning r \<Longrightarrow>
        processItems st c (rangeItems st (selectItems st r)) [] r = (r1, x) \<Longrightarrow> Q st r r1"
    and flush: "\<And>st k r. Q st r (flushBuffer k r)"
    and gate: "\<And>st r h. Q st r (loadOne st r h)"
  shows "processQueue n st c r = Some r' \<Longrightarrow> Q st r r'"
    and "loadEndLoop n st c k hl r = Some r' \<Longrightarrow> Q st r r'"
    and "Load n st c cids r = Some r' \<Longrightarrow> Q st r r'"
proof (induction n st c r and n st c k hl r and n st c cids r arbitrary: r' and r' and r'
    rule: processQueue_loadEndLoop_Load.induct)
  case (1 st c r)
  then show ?case by (simp add: processQueue.simps)
next
  case (2 n st c r)
  show ?case
  proof (cases "concurrency r \<le> tasksRunning r")
    case True
    with "2.prems" show ?thesis by (simp add: rfl processQueue.simps)
  next
    case False
    obtain r1 x where p: "processItems st c (rangeItems st (selectItems st r)) [] r = (r1, x)"
      by (cases "processItems st c (rangeItems st (selectItems st r)) [] r")
    have q1: "Q st r r1" using items [OF False p] .
    show ?thesis
    proof (cases x)
      case None
      with "2.prems" False p show ?thesis using q1 by (simp add: processQueue.simps)
    next
      case (Some hl)
      with "2.prems" False p
      have "loadEndLoop n st c (length (selectItems st r)) hl r1 = Some r'"
        by (simp add: processQueue.simps)
      from "2.IH" [OF False HOL.refl p [symmetric] Some this]
      have "Q st r1 r'" .
      with q1 show ?thesis by (rule trn)
    qed
  qed
next
  case (3 n st c lenItems r)
  then show ?case by (simp add: rfl loadEndLoop.simps)
next
  case (4 n st c lenItems hashes rest r)
  let ?r1 = "flushBuffer lenItems r"
  have q1: "Q st r ?r1" by (rule flush)
  show ?case
  proof (cases "length hashes > 0")
    case True
    have "loadEndLoop n st c lenItems (hashes # rest) r = (case Load n st c hashes ?r1 of None \<Rightarrow> None
        | Some r2 \<Rightarrow> loadEndLoop n st c lenItems rest r2)"
      using True by (simp only: loadEndLoop.simps Let_def if_True)
    with "4.prems" have "(case Load n st c hashes ?r1 of None \<Rightarrow> None
        | Some r2 \<Rightarrow> loadEndLoop n st c lenItems rest r2) = Some r'"
      by (simp only:)
    then obtain r2 where l: "Load n st c hashes ?r1 = Some r2"
      and e: "loadEndLoop n st c lenItems rest r2 = Some r'"
      by (cases "Load n st c hashes ?r1") simp_all
    have a: "Q st ?r1 r2" using "4.IH"(1) [OF refl True l] .
    have b: "Q st r2 r'" using "4.IH"(2) [OF refl True l e] .
    show ?thesis by (rule trn [OF q1 trn [OF a b]])
  next
    case False
    with "4.prems" have e: "loadEndLoop n st c lenItems rest ?r1 = Some r'"
      by (simp add: loadEndLoop.simps)
    have "Q st ?r1 r'" using "4.IH"(3) [OF refl False e] .
    with q1 show ?thesis by (rule trn)
  qed
next
  case (5 n st c cids r)
  have a: "Q st r (foldl (loadOne st) r cids)"
    by (rule foldl_rel [where Q = "Q st" and f = "loadOne st"]) (rule rfl, erule trn, assumption, rule gate)
  from "5.prems" have "processQueue n st c (foldl (loadOne st) r cids) = Some r'"
    by (simp add: Load.simps)
  from "5.IH" [OF this] have "Q st (foldl (loadOne st) r cids) r'" .
  with a show ?case by (rule trn)
qed


lemma processItems_rel:
  assumes rfl: "\<And>r. Q r r"
    and trn: "\<And>a b c. Q a b \<Longrightarrow> Q b c \<Longrightarrow> Q a c"
    and del: "\<And>e r. Q r (r\<lparr>queue := mapDelete e (queue r)\<rparr>)"
    and one: "\<And>e r r' x. processOne st c e r = (r', x) \<Longrightarrow> Q r r'"
  shows "processItems st c es hl r = (r1, x) \<Longrightarrow> Q r r1"
proof (induction es arbitrary: hl r)
  case Nil
  then show ?case by (simp add: rfl)
next
  case (Cons e es)
  let ?r0 = "r\<lparr>queue := mapDelete e (queue r)\<rparr>"
  obtain r2 y where p: "processOne st c e ?r0 = (r2, y)" by (cases "processOne st c e ?r0")
  have q: "Q r r2" by (rule trn [OF del one [OF p]])
  show ?case
  proof (cases y)
    case (Inl err)
    with Cons.prems p have "r1 = r2" by simp
    with q show ?thesis by simp
  next
    case (Inr hashes)
    with Cons.prems p have "processItems st c es (hl @ [hashes]) r2 = (r1, x)" by simp
    from Cons.IH [OF this] have "Q r2 r1" .
    with q show ?thesis by (rule trn)
  qed
qed

lemma processOne_fetching_mono:
  "processOne st c h r = (r', x) \<Longrightarrow> set (fetching r) \<subseteq> set (fetching r')"
  by (cases rule: processOne_cases [of h st r c]) auto

lemma processItems_fetching_mono:
  "processItems st c es hl r = (r1, x) \<Longrightarrow> set (fetching r) \<subseteq> set (fetching r1)"
  by (rule processItems_rel [where Q = "\<lambda>a b. set (fetching a) \<subseteq> set (fetching b)"])
     (auto dest: processOne_fetching_mono)

lemma traversal_fetching_mono:
  "processQueue n st c r = Some r' \<Longrightarrow> set (fetching r) \<subseteq> set (fetching r')"
  "loadEndLoop n st c k hl r = Some r' \<Longrightarrow> set (fetching r) \<subseteq> set (fetching r')"
  "Load n st c cids r = Some r' \<Longrightarrow> set (fetching r) \<subseteq> set (fetching r')"
  by (rule traversal_rel [where Q = "\<lambda>st a b. set (fetching a) \<subseteq> set (fetching b)"];
      (auto dest: processItems_fetching_mono simp: flushBuffer_eq loadOne_eq)[1])+


subsection \<open>The fetching set\<close>

lemma rangeVisitsKeys_storeA [simp]: "rangeVisitsKeys storeA"
  by (simp add: rangeVisitsKeys_def storeA_def)

text \<open>
  Against C2: after a fetch that succeeded, and after one that failed, \<open>h1\<close> is in the
  fetching set; and once the store serves \<open>h1\<close> again, \<open>processOne\<close> does not fetch
  it.
\<close>

theorem C2_counterexample:
  "''h1'' \<in> set (fetching (fst (processOne storeA False ''h1'' (NewReplicator False 0)))) \<and>
   ''h1'' \<in> set (fetching (fst (processOne storeC False ''h1'' (NewReplicator False 0)))) \<and>
   processOne storeA False ''h1'' (fst (processOne storeC False ''h1'' (NewReplicator False 0)))
     = (fst (processOne storeC False ''h1'' (NewReplicator False 0)), Inr [])"
  by (simp add: processOne_def storeA_def storeC_def fetchFrom_def historyA_def historyC_def
      NewReplicator_def mapPut_def mapDelete_def Emit_def Let_def)

text \<open>
  C2 (as the code has it). \<open>processOne\<close> never takes a hash out of the fetching set:
  once it has started the fetch of \<open>h\<close>, with success or with an error, \<open>h\<close> is in the
  set and stays there through every later \<open>Load\<close>; from then on \<open>Load\<close> does not
  enqueue \<open>h\<close> and \<open>processOne\<close> returns at once on \<open>h\<close> without fetching.
\<close>

theorem C2_fetching_is_never_cleared:
  assumes "h \<notin> oplog st" and "h \<notin> set (fetching r)"
  shows "h \<in> set (fetching (fst (processOne st c h r))) \<and>
         (\<forall>n st' c' cids r'. Load n st' c' cids (fst (processOne st c h r)) = Some r' \<longrightarrow>
            h \<in> set (fetching r') \<and>
            loadOne st' r' h = r' \<and>
            processOne st' c' h r' = (r', Inr []))"
proof -
  have a: "h \<in> set (fetching (fst (processOne st c h r)))"
    using assms by (cases rule: processOne_cases [of h st r c]) auto
  moreover have "h \<in> set (fetching r')"
    if "Load n st' c' cids (fst (processOne st c h r)) = Some r'" for n st' c' cids r'
    using traversal_fetching_mono(3) [OF that] a by blast
  ultimately show ?thesis
    by (auto simp: loadOne_eq processOne_skip)
qed

theorem C2_fetching_is_never_cleared_witness:
  "''h1'' \<notin> oplog storeC \<and> ''h1'' \<notin> set (fetching (NewReplicator False 0)) \<and>
   ''h1'' \<in> set (fetching (fst (processOne storeC False ''h1'' (NewReplicator False 0)))) \<and>
   Load (Suc 0) storeA False [''h1''] (fst (processOne storeC False ''h1'' (NewReplicator False 0)))
     = Some (fst (processOne storeC False ''h1'' (NewReplicator False 0))) \<and>
   loadOne storeA (fst (processOne storeC False ''h1'' (NewReplicator False 0))) ''h1''
     = fst (processOne storeC False ''h1'' (NewReplicator False 0)) \<and>
   processOne storeA False ''h1'' (fst (processOne storeC False ''h1'' (NewReplicator False 0)))
     = (fst (processOne storeC False ''h1'' (NewReplicator False 0)), Inr [])"
proof -
  let ?r1 = "fst (processOne storeC False ''h1'' (NewReplicator False 0))"
  have a: "''h1'' \<notin> oplog storeC" by (simp add: storeC_def storeA_def)
  have b: "''h1'' \<notin> set (fetching (NewReplicator False 0))" by (simp add: NewReplicator_def)
  have r1: "?r1 = \<lparr>cancelled = False, fetching = [''h1''], statsTasksRequested = 0,
      statsTasksStarted = 1, statsTasksProcessed = 0, buffer = [], concurrency = 128,
      queue = [], emitted = [EventLoadAdded ''h1'']\<rparr>"
    by (simp add: processOne_def storeA_def storeC_def fetchFrom_def historyC_def
        NewReplicator_def mapPut_def Emit_def Let_def)
  have l: "Load (Suc 0) storeA False [''h1''] ?r1 = Some ?r1"
    unfolding r1
    by (simp add: Load.simps processQueue.simps loadEndLoop.simps loadOne_eq selectItems_def
        queueSlice_def tasksRunning_def storeA_def)
  from C2_fetching_is_never_cleared [OF a b, of False] l
  have "''h1'' \<in> set (fetching ?r1) \<and> loadOne storeA ?r1 ''h1'' = ?r1 \<and>
        processOne storeA False ''h1'' ?r1 = (?r1, Inr [])"
    by blast
  with a b l show ?thesis by blast
qed


subsection \<open>The loop of Load\<close>

lemma loadLoop:
  "\<exists>new. distinct new \<and>
     set new = {h \<in> set cids. h \<notin> set (fetching r) \<and> h \<notin> set (queue r) \<and> h \<notin> oplog st} \<and>
     foldl (loadOne st) r cids =
       r\<lparr>statsTasksRequested := statsTasksRequested r + of_nat (length new),
         queue := queue r @ new\<rparr>"
proof (induction cids rule: rev_induct)
  case Nil
  show ?case by (rule exI [of _ "[]"]) simp
next
  case (snoc x xs)
  then obtain new where d: "distinct new"
    and s: "set new = {h \<in> set xs. h \<notin> set (fetching r) \<and> h \<notin> set (queue r) \<and> h \<notin> oplog st}"
    and f: "foldl (loadOne st) r xs =
       r\<lparr>statsTasksRequested := statsTasksRequested r + of_nat (length new),
         queue := queue r @ new\<rparr>"
    by blast
  show ?case
  proof (cases "x \<in> set (fetching r) \<or> x \<in> set (queue r) \<or> x \<in> set new \<or> x \<in> oplog st")
    case True
    have "foldl (loadOne st) r (xs @ [x]) = foldl (loadOne st) r xs"
      using True by (auto simp: f loadOne_eq)
    moreover have "set new = {h \<in> set (xs @ [x]). h \<notin> set (fetching r) \<and> h \<notin> set (queue r) \<and> h \<notin> oplog st}"
      using True s by auto
    ultimately show ?thesis using d f by (intro exI [of _ new]) simp
  next
    case False
    have "foldl (loadOne st) r (xs @ [x]) =
       r\<lparr>statsTasksRequested := statsTasksRequested r + of_nat (length (new @ [x])),
         queue := queue r @ (new @ [x])\<rparr>"
      using False by (simp add: f loadOne_eq add.assoc)
    moreover have "set (new @ [x]) = {h \<in> set (xs @ [x]). h \<notin> set (fetching r) \<and> h \<notin> set (queue r) \<and> h \<notin> oplog st}"
      using False s by auto
    moreover have "distinct (new @ [x])" using False d by simp
    ultimately show ?thesis by (intro exI [of _ "new @ [x]"] conjI)
  qed
qed

lemma rangeVisitsKeysD:
  assumes "rangeVisitsKeys st"
  shows "set (rangeQueue st m) = set m" and "length (rangeQueue st m) = length m"
    and "set (rangeItems st m) = set m" and "length (rangeItems st m) = length m"
  using assms unfolding rangeVisitsKeys_def by blast+

lemma range_Nil:
  assumes "rangeVisitsKeys st"
  shows "rangeQueue st [] = []" and "rangeItems st [] = []"
  using rangeVisitsKeysD(2,4) [OF assms, of "[]"] by simp_all

lemma selectItems_empty:
  "rangeVisitsKeys st \<Longrightarrow> queue r = [] \<Longrightarrow> selectItems st r = []"
  by (simp add: selectItems_def queueSlice_def range_Nil Let_def)

lemma processQueue_empty:
  assumes "rangeVisitsKeys st" and "queue r = []"
  shows "processQueue (Suc n) st c r = Some r"
proof -
  have "rangeItems st [] = []" using assms(1) by (rule range_Nil)
  then show ?thesis
    by (simp add: processQueue.simps selectItems_empty [OF assms] loadEndLoop.simps)
qed

text \<open>
  C8. \<open>Load\<close> puts every given hash through the check of \<open>loadOne\<close>: a hash that is
  fetching, queued or in the local log leaves the replicator as it is (queue, fetching
  set, counter and events), any other hash is added to the queue and counted once. After
  the loop, the new part of the queue holds the given hashes that passed, each once, and
  the requested counter has grown by their number; \<open>Load\<close> then runs \<open>processQueue\<close>.
\<close>

theorem C8_load_gate:
  "loadOne st r h =
     (if h \<in> set (fetching r) \<or> h \<in> set (queue r) \<or> h \<in> oplog st then r
      else r\<lparr>statsTasksRequested := statsTasksRequested r + 1, queue := queue r @ [h]\<rparr>) \<and>
   (\<exists>new. distinct new \<and>
      set new = {h \<in> set cids. h \<notin> set (fetching r) \<and> h \<notin> set (queue r) \<and> h \<notin> oplog st} \<and>
      foldl (loadOne st) r cids =
        r\<lparr>statsTasksRequested := statsTasksRequested r + of_nat (length new),
          queue := queue r @ new\<rparr> \<and>
      Load n st c cids r =
        processQueue n st c
          (r\<lparr>statsTasksRequested := statsTasksRequested r + of_nat (length new),
             queue := queue r @ new\<rparr>))"
proof -
  obtain new where "distinct new"
    "set new = {h \<in> set cids. h \<notin> set (fetching r) \<and> h \<notin> set (queue r) \<and> h \<notin> oplog st}"
    "foldl (loadOne st) r cids =
       r\<lparr>statsTasksRequested := statsTasksRequested r + of_nat (length new),
         queue := queue r @ new\<rparr>"
    using loadLoop by blast
  then show ?thesis
    by (intro conjI exI [of _ new]) (simp_all add: loadOne_eq Load.simps)
qed

lemma rangeVisitsKeys_storeB: "rangeVisitsKeys storeB"
  by (simp add: rangeVisitsKeys_def storeB_def storeA_def)

text \<open>Scenario B: the one hash given is in the local log, and nothing happens.\<close>

theorem C8_load_gate_witness:
  "loadOne storeB (NewReplicator False 0) ''h1'' = NewReplicator False 0 \<and>
   foldl (loadOne storeB) (NewReplicator False 0) [''h1''] = NewReplicator False 0 \<and>
   Load (Suc 0) storeB False [''h1''] (NewReplicator False 0) = Some (NewReplicator False 0)"
proof -
  define r where "r = NewReplicator False 0"
  define h where "h = ''h1''"
  have o: "h \<in> oplog storeB" by (simp add: storeB_def storeA_def h_def)
  have q: "queue r = []" by (simp add: NewReplicator_def r_def)
  have g: "loadOne storeB r h = r"
    using C8_load_gate [of storeB r h "[h]" "Suc 0" False] o by simp
  from C8_load_gate [of storeB r h "[h]" "Suc 0" False]
  obtain new where n: "set new = {x \<in> set [h]. x \<notin> set (fetching r) \<and> x \<notin> set (queue r) \<and> x \<notin> oplog storeB}"
    and f: "foldl (loadOne storeB) r [h] =
        r\<lparr>statsTasksRequested := statsTasksRequested r + of_nat (length new),
          queue := queue r @ new\<rparr>"
    and l: "Load (Suc 0) storeB False [h] r =
        processQueue (Suc 0) storeB False
          (r\<lparr>statsTasksRequested := statsTasksRequested r + of_nat (length new),
             queue := queue r @ new\<rparr>)"
    by blast
  from n o have "set new = {}" by auto
  then have e: "new = []" by simp
  have "r\<lparr>statsTasksRequested := statsTasksRequested r + of_nat (length new),
          queue := queue r @ new\<rparr> = r"
    by (simp add: e)
  with f l g processQueue_empty [OF rangeVisitsKeys_storeB q] show ?thesis
    by (simp add: r_def h_def)
qed


subsection \<open>Stop\<close>

lemma processOne_Stop:
  "processOne st c h (Stop r) = (Stop (fst (processOne st c h r)), snd (processOne st c h r))"
  by (cases rule: processOne_cases [of h st r c])
     (simp_all add: processOne_def Stop_def mapPut_def mapDelete_def Emit_def Let_def)

lemma processItems_Stop:
  "processItems st c es hl (Stop r) =
     (Stop (fst (processItems st c es hl r)), snd (processItems st c es hl r))"
proof (induction es arbitrary: hl r)
  case Nil
  show ?case by simp
next
  case (Cons e es)
  let ?r0 = "r\<lparr>queue := mapDelete e (queue r)\<rparr>"
  have s: "Stop r\<lparr>queue := mapDelete e (queue (Stop r))\<rparr> = Stop ?r0"
    by (simp add: Stop_def)
  obtain r2 y where p: "processOne st c e ?r0 = (r2, y)" by (cases "processOne st c e ?r0")
  then have p': "processOne st c e (Stop ?r0) = (Stop r2, y)" by (simp add: processOne_Stop)
  show ?case
  proof (cases y)
    case (Inl err)
    with p p' s show ?thesis by simp
  next
    case (Inr hashes)
    with p p' s Cons.IH [of "hl @ [hashes]" r2] show ?thesis by simp
  qed
qed

lemma selectItems_Stop: "selectItems st (Stop r) = selectItems st r"
  by (simp add: selectItems_def queueSlice_def tasksRunning_def Stop_def)

lemma flushBuffer_Stop: "flushBuffer k (Stop r) = Stop (flushBuffer k r)"
  by (simp add: flushBuffer_eq tasksRunning_def Stop_def)

lemma loadOne_Stop: "loadOne st (Stop r) h = Stop (loadOne st r h)"
  by (simp add: loadOne_eq Stop_def)

lemma loadLoop_Stop: "foldl (loadOne st) (Stop r) cids = Stop (foldl (loadOne st) r cids)"
  by (induction cids arbitrary: r) (simp_all add: loadOne_Stop)

lemma traversal_Stop:
  "processQueue n st c (Stop r) = map_option Stop (processQueue n st c r)"
  "loadEndLoop n st c k hl (Stop r) = map_option Stop (loadEndLoop n st c k hl r)"
  "Load n st c cids (Stop r) = map_option Stop (Load n st c cids r)"
proof (induction n st c r and n st c k hl r and n st c cids r
    rule: processQueue_loadEndLoop_Load.induct)
  case (1 st c r)
  show ?case by (simp add: processQueue.simps)
next
  case (2 n st c r)
  have t: "tasksRunning (Stop r) = tasksRunning r" "concurrency (Stop r) = concurrency r"
    by (simp_all add: tasksRunning_def Stop_def)
  show ?case
  proof (cases "concurrency r \<le> tasksRunning r")
    case True
    then show ?thesis by (simp add: processQueue.simps t)
  next
    case False
    obtain r1 x where p: "processItems st c (rangeItems st (selectItems st r)) [] r = (r1, x)"
      by (cases "processItems st c (rangeItems st (selectItems st r)) [] r")
    then have p': "processItems st c (rangeItems st (selectItems st r)) [] (Stop r) = (Stop r1, x)"
      by (simp add: processItems_Stop)
    show ?thesis
    proof (cases x)
      case None
      with False p p' show ?thesis by (simp add: processQueue.simps t selectItems_Stop)
    next
      case (Some hl)
      from "2.IH" [OF False refl p [symmetric] Some]
      show ?thesis using False p p' Some
        by (simp add: processQueue.simps t selectItems_Stop)
    qed
  qed
next
  case (3 n st c lenItems r)
  show ?case by (simp add: loadEndLoop.simps)
next
  case (4 n st c lenItems hashes rest r)
  let ?r1 = "flushBuffer lenItems r"
  show ?case
  proof (cases "length hashes > 0")
    case True
    note ih1 = "4.IH"(1) [OF refl True]
    show ?thesis
    proof (cases "Load n st c hashes ?r1")
      case None
      with ih1 True show ?thesis by (simp add: loadEndLoop.simps flushBuffer_Stop)
    next
      case (Some r2)
      from "4.IH"(2) [OF refl True Some] ih1 Some True show ?thesis
        by (simp add: loadEndLoop.simps flushBuffer_Stop)
    qed
  next
    case False
    from "4.IH"(3) [OF refl False] False show ?thesis
      by (simp add: loadEndLoop.simps flushBuffer_Stop)
  qed
next
  case (5 n st c cids r)
  then show ?case by (simp add: Load.simps loadLoop_Stop)
qed

lemma watchdog_Exit: "cancelled r \<Longrightarrow> watchdog k n st r = Some r"
  by (cases k) (simp_all add: watchdogWake_def)

text \<open>
  C9 (as the code has it). After \<open>Stop\<close> the goroutine leaves at its next turn and
  changes nothing, however many turns it is given. \<open>Load\<close> and \<open>processQueue\<close> do not
  read the cancellation: on a stopped replicator they do what they do on a running one,
  to the queue, the fetching set, the buffer, the counters and the events.
\<close>

theorem C9_stop_only_ends_the_watchdog:
  "watchdogWake n st (Stop r) = Some Exit \<and>
   watchdog k n st (Stop r) = Some (Stop r) \<and>
   Load n st c cids (Stop r) = map_option Stop (Load n st c cids r) \<and>
   processQueue n st c (Stop r) = map_option Stop (processQueue n st c r)"
proof -
  have c: "cancelled (Stop r)" by (simp add: Stop_def)
  then have "watchdogWake n st (Stop r) = Some Exit" by (simp add: watchdogWake_def)
  with watchdog_Exit [OF c] show ?thesis by (simp add: traversal_Stop)
qed

text \<open>
  A \<open>Load\<close> after \<open>Stop\<close>, under the caller's own context: the hash is enqueued,
  fetched and flushed.
\<close>

theorem C9_counterexample:
  "Load (Suc 0) storeA False [''h1''] (Stop (NewReplicator False 0)) =
     Some \<lparr>cancelled = True, fetching = [''h1''], statsTasksRequested = 1,
           statsTasksStarted = 1, statsTasksProcessed = 1, buffer = [], concurrency = 128,
           queue = [],
           emitted = [EventLoadAdded ''h1'',
                      EventLoadProgress ''h1'' (Some \<lparr>hash = ''h1'', nexts = []\<rparr>) 1,
                      EventLoadEnd [[\<lparr>hash = ''h1'', nexts = []\<rparr>]]]\<rparr> \<and>
   Load (Suc 0) storeA False [''h1''] (Stop (NewReplicator False 0)) \<noteq>
     Some (Stop (NewReplicator False 0))"
  by (simp add: Load.simps processQueue.simps loadEndLoop.simps loadOne_eq selectItems_def
      queueSlice_def tasksRunning_def storeA_def Stop_def NewReplicator_def processOne_def
      fetchFrom_def historyA_def mapPut_def mapDelete_def Emit_def At0_def flushBuffer_eq Let_def)

theorem C9_stop_only_ends_the_watchdog_witness:
  "watchdogWake (Suc 0) storeA (Stop (NewReplicator False 0)) = Some Exit \<and>
   watchdog 3 (Suc 0) storeA (Stop (NewReplicator False 0)) = Some (Stop (NewReplicator False 0)) \<and>
   Load (Suc 0) storeA False [''h1''] (Stop (NewReplicator False 0)) =
     map_option Stop (Load (Suc 0) storeA False [''h1''] (NewReplicator False 0))"
  using C9_stop_only_ends_the_watchdog [of "Suc 0" storeA "NewReplicator False 0" 3 False "[''h1'']"]
  by blast


subsection \<open>The selection of processQueue\<close>

lemma mapPut_fold_set: "set (foldl (\<lambda>items h. mapPut h items) acc xs) = set acc \<union> set xs"
  by (induction xs arbitrary: acc) (auto simp: mapPut_def)


lemma mapPut_fold_distinct:
  "distinct acc \<Longrightarrow> distinct (foldl (\<lambda>items h. mapPut h items) acc xs)"
  by (induction xs arbitrary: acc) (auto simp: mapPut_def)

lemma mapPut_fold_id:
  "distinct (acc @ xs) \<Longrightarrow> foldl (\<lambda>items h. mapPut h items) acc xs = acc @ xs"
  by (induction xs arbitrary: acc) (auto simp: mapPut_def)

text \<open>The capacity after the comparison with the length of the snapshot.\<close>

lemma selectItems_alt:
  "selectItems st r =
     foldl (\<lambda>items h. mapPut h items) []
       (take (unat (if (of_nat (length (rangeQueue st (queue r))) :: 64 word)
                         < concurrency r - tasksRunning r
                    then of_nat (length (rangeQueue st (queue r)))
                    else concurrency r - tasksRunning r))
          (rangeQueue st (queue r)))"
  by (simp add: selectItems_def queueSlice_def Let_def)


lemma selectItems_subset:
  "rangeVisitsKeys st \<Longrightarrow> set (selectItems st r) \<subseteq> set (queue r)"
  unfolding selectItems_alt mapPut_fold_set
  using set_take_subset [of _ "rangeQueue st (queue r)"] by (auto simp: rangeVisitsKeysD(1))

lemma selectItems_distinct: "distinct (selectItems st r)"
  unfolding selectItems_alt by (rule mapPut_fold_distinct) simp

lemma selectItems_nonempty:
  assumes v: "rangeVisitsKeys st" and q: "queue r \<noteq> []" and l: "length (queue r) < 2 ^ 64"
    and t: "tasksRunning r < concurrency r"
  shows "selectItems st r \<noteq> []"
proof -
  let ?cap = "concurrency r - tasksRunning r"
  let ?sq = "rangeQueue st (queue r)"
  let ?cap' = "if (of_nat (length ?sq) :: 64 word) < ?cap then of_nat (length ?sq) else ?cap"
  have len: "length ?sq = length (queue r)" by (rule rangeVisitsKeysD(2) [OF v])
  then have sq: "?sq \<noteq> []" using q by auto
  have "unat (of_nat (length ?sq) :: 64 word) = length ?sq"
    using l len by (intro of_nat_inverse [OF refl]) simp
  then have a: "(of_nat (length ?sq) :: 64 word) \<noteq> 0" using sq
    by (metis length_0_conv unat_0)
  have b: "?cap \<noteq> 0" using t by simp
  have "?cap' \<noteq> 0" using a b by simp
  then have "0 < unat ?cap'" by (simp add: unat_gt_0)
  then have "take (unat ?cap') ?sq \<noteq> []" using sq by simp
  then have "set (foldl (\<lambda>items h. mapPut h items) [] (take (unat ?cap') ?sq)) \<noteq> {}"
    unfolding mapPut_fold_set by simp
  then show ?thesis unfolding selectItems_alt by auto
qed


subsection \<open>The scenarios, run\<close>

lemmas run_simps =
  Load.simps processQueue.simps loadEndLoop.simps loadOne_eq selectItems_def queueSlice_def
  tasksRunning_def processOne_def flushBuffer_eq watchdogWake_def mapPut_def mapDelete_def
  Emit_def At0_def Let_def NewReplicator_def Stop_def
  storeA_def storeA'_def storeB_def storeC_def fetchFrom_def historyA_def historyC_def


lemma rangeVisitsKeys_storeC: "rangeVisitsKeys storeC"
  by (simp add: rangeVisitsKeys_def storeC_def storeA_def)






subsection \<open>The ceiling\<close>









subsection \<open>The bookkeeping between operations\<close>

lemma events_append [simp]:
  "loadAdded (es @ fs) = loadAdded es @ loadAdded fs"
  "loadProgress (es @ fs) = loadProgress es @ loadProgress fs"
  "loadEnd (es @ fs) = loadEnd es @ loadEnd fs"
  by (simp_all add: loadAdded_def loadProgress_def loadEnd_def)

lemma events_Cons [simp]:
  "loadAdded (EventLoadAdded h # es) = h # loadAdded es"
  "loadAdded (EventLoadProgress h e k # es) = loadAdded es"
  "loadAdded (EventLoadEnd b # es) = loadAdded es"
  "loadProgress (EventLoadAdded h # es) = loadProgress es"
  "loadProgress (EventLoadProgress h e k # es) = h # loadProgress es"
  "loadProgress (EventLoadEnd b # es) = loadProgress es"
  "loadEnd (EventLoadAdded h # es) = loadEnd es"
  "loadEnd (EventLoadProgress h e k # es) = loadEnd es"
  "loadEnd (EventLoadEnd b # es) = b # loadEnd es"
  by (simp_all add: loadAdded_def loadProgress_def loadEnd_def)

lemma events_Nil [simp]: "loadAdded [] = []" "loadProgress [] = []" "loadEnd [] = []"
  by (simp_all add: loadAdded_def loadProgress_def loadEnd_def)









lemma rangeItems_distinct:
  assumes "rangeVisitsKeys st" and "distinct m"
  shows "distinct (rangeItems st m)"
proof -
  have "card (set (rangeItems st m)) = length (rangeItems st m)"
    using rangeVisitsKeysD(3,4) [OF assms(1), of m] distinct_card [OF assms(2)] by simp
  then show ?thesis by (rule card_distinct)
qed




subsection \<open>The counters\<close>





subsection \<open>The queue and the fetching set\<close>







subsection \<open>A round of processQueue\<close>

lemma processItems_append:
  "processItems st c (xs @ ys) hl r =
     (case processItems st c xs hl r of
        (r1, None) \<Rightarrow> (r1, None)
      | (r1, Some hl1) \<Rightarrow> processItems st c ys hl1 r1)"
proof (induction xs arbitrary: hl r)
  case Nil
  show ?case by simp
next
  case (Cons e es)
  let ?r0 = "r\<lparr>queue := mapDelete e (queue r)\<rparr>"
  obtain r2 y where p: "processOne st c e ?r0 = (r2, y)" by (cases "processOne st c e ?r0")
  show ?case
  proof (cases y)
    case (Inl err)
    with p show ?thesis by simp
  next
    case (Inr hashes)
    with p Cons.IH [of "hl @ [hashes]" r2] show ?thesis by simp
  qed
qed

lemma processOne_queue:
  "processOne st c h r = (r', x) \<Longrightarrow> set (queue r) - {h} \<subseteq> set (queue r')"
  by (cases rule: processOne_cases [of h st r c]) auto

lemma processItems_queue_keeps:
  "processItems st c es hl r = (r1, x) \<Longrightarrow> set (queue r) - set es \<subseteq> set (queue r1)"
proof (induction es arbitrary: hl r)
  case Nil
  then show ?case by simp
next
  case (Cons e es)
  let ?r0 = "r\<lparr>queue := mapDelete e (queue r)\<rparr>"
  obtain r2 y where p: "processOne st c e ?r0 = (r2, y)" by (cases "processOne st c e ?r0")
  have q2: "set (queue r) - {e} \<subseteq> set (queue r2)"
    using processOne_queue [OF p] by (auto simp: mapDelete_def)
  show ?case
  proof (cases y)
    case (Inl err)
    with Cons.prems p have "r1 = r2" by simp
    with q2 show ?thesis by auto
  next
    case (Inr hashes)
    with Cons.prems p have "processItems st c es (hl @ [hashes]) r2 = (r1, x)" by simp
    from Cons.IH [OF this] q2 show ?thesis by auto
  qed
qed


text \<open>
  C7. When the fetch of a selected hash \<open>h\<close> fails, the round of \<open>processQueue\<close> ends
  there and returns a replicator, no error: the one the hashes before \<open>h\<close> left, with
  \<open>h\<close> out of the queue, in the fetching set, announced and counted as started. The
  processed counter and the buffer are as the hashes before \<open>h\<close> left them, and the
  selected hashes after \<open>h\<close> are still queued.
\<close>

theorem C7_fail_fast:
  assumes "rangeVisitsKeys st" and "tasksRunning r < concurrency r"
    and "rangeItems st (selectItems st r) = pre @ h # post"
    and "processItems st c pre [] r = (r1, Some hl)"
    and "h \<notin> oplog st" and "h \<notin> set (fetching r1)" and "NewFromEntryHash st c h = Inl err"
  shows "processQueue (Suc n) st c r =
           Some (r1\<lparr>queue := removeAll h (queue r1), fetching := fetching r1 @ [h],
                    emitted := emitted r1 @ [EventLoadAdded h],
                    statsTasksStarted := statsTasksStarted r1 + 1\<rparr>) \<and>
         processQueue (Suc n) st c r =
           Some (fst (processOne st c h (r1\<lparr>queue := mapDelete h (queue r1)\<rparr>))) \<and>
         set post \<subseteq> set (removeAll h (queue r1))"
proof -
  let ?r0 = "r1\<lparr>queue := mapDelete h (queue r1)\<rparr>"
  let ?r2 = "r1\<lparr>queue := removeAll h (queue r1), fetching := fetching r1 @ [h],
                    emitted := emitted r1 @ [EventLoadAdded h],
                    statsTasksStarted := statsTasksStarted r1 + 1\<rparr>"
  have p: "processOne st c h ?r0 = (?r2, Inl (Wrap err ''unable to fetch log''))"
    using processOne_fail [of h st ?r0 c err] assms(5-7) by (simp add: mapDelete_def)
  have "processItems st c (pre @ h # post) [] r = (?r2, None)"
    using assms(4) p by (simp add: processItems_append)
  then have run: "processQueue (Suc n) st c r = Some ?r2"
    using assms(2,3) by (simp add: processQueue.simps)
  have d: "distinct (pre @ h # post)"
    using rangeItems_distinct [OF assms(1) selectItems_distinct [of st r]] assms(3) by simp
  have "set (pre @ h # post) \<subseteq> set (queue r)"
    using selectItems_subset [OF assms(1), of r] rangeVisitsKeysD(3) [OF assms(1)] assms(3)
    by metis
  then have "set post \<subseteq> set (queue r) - set pre" using d by auto
  also have "\<dots> \<subseteq> set (queue r1)" by (rule processItems_queue_keeps [OF assms(4)])
  finally have "set post \<subseteq> set (removeAll h (queue r1))" using d by auto
  with run p show ?thesis by simp
qed

lemma processItems_queuedC_pre:
  "processItems storeC False [''h2''] [] queuedC =
     (queuedC\<lparr>fetching := [''h2''], statsTasksStarted := 1, statsTasksProcessed := 1,
        buffer := [[\<lparr>hash = ''h2'', nexts = []\<rparr>]], queue := [''h1'', ''h3''],
        emitted := [EventLoadAdded ''h2'',
                    EventLoadProgress ''h2'' (Some \<lparr>hash = ''h2'', nexts = []\<rparr>) 1]\<rparr>,
      Some [[]])"
  by (simp add: run_simps queuedC_def)

lemma selectItems_queuedC: "rangeItems storeC (selectItems storeC queuedC) = [''h2''] @ ''h1'' # [''h3'']"
  by (simp add: run_simps queuedC_def)

theorem C7_fail_fast_witness:
  "rangeVisitsKeys storeC \<and> tasksRunning queuedC < concurrency queuedC \<and>
   rangeItems storeC (selectItems storeC queuedC) = [''h2''] @ ''h1'' # [''h3''] \<and>
   ''h1'' \<notin> oplog storeC \<and> NewFromEntryHash storeC False ''h1'' = Inl (Error ''not found'') \<and>
   processQueue (Suc 0) storeC False queuedC = Some abortedC \<and>
   statsTasksProcessed abortedC = 1 \<and>
   set [''h3''] \<subseteq> set (queue abortedC)"
proof -
  define r1 where "r1 = queuedC\<lparr>fetching := [''h2''], statsTasksStarted := 1, statsTasksProcessed := 1,
        buffer := [[\<lparr>hash = ''h2'', nexts = []\<rparr>]], queue := [''h1'', ''h3''],
        emitted := [EventLoadAdded ''h2'',
                    EventLoadProgress ''h2'' (Some \<lparr>hash = ''h2'', nexts = []\<rparr>) 1]\<rparr>"
  have 1: "tasksRunning queuedC < concurrency queuedC" by (simp add: queuedC_def tasksRunning_def)
  have 2: "processItems storeC False [''h2''] [] queuedC = (r1, Some [[]])"
    unfolding r1_def by (rule processItems_queuedC_pre)
  have 3: "''h1'' \<notin> oplog storeC" by (simp add: storeC_def storeA_def)
  have 4: "''h1'' \<notin> set (fetching r1)" by (simp add: r1_def)
  have 5: "NewFromEntryHash storeC False ''h1'' = Inl (Error ''not found'')"
    by (simp add: storeC_def storeA_def fetchFrom_def historyC_def)
  have e: "r1\<lparr>queue := removeAll ''h1'' (queue r1), fetching := fetching r1 @ [''h1''],
                    emitted := emitted r1 @ [EventLoadAdded ''h1''],
                    statsTasksStarted := statsTasksStarted r1 + 1\<rparr> = abortedC"
    by (simp add: r1_def queuedC_def abortedC_def)
  from C7_fail_fast [OF rangeVisitsKeys_storeC 1 selectItems_queuedC 2 3 4 5, of 0]
  have "processQueue (Suc 0) storeC False queuedC = Some abortedC"
    and "set [''h3''] \<subseteq> set (queue abortedC)"
    unfolding e by (simp_all add: abortedC_def r1_def)
  moreover have "statsTasksProcessed abortedC = 1" by (simp add: abortedC_def)
  ultimately show ?thesis using rangeVisitsKeys_storeC 1 selectItems_queuedC 3 5 by blast
qed


subsection \<open>Flushing the buffer\<close>




subsection \<open>A round in which every fetch succeeds\<close>








subsection \<open>The traversal returns\<close>










subsection \<open>The whole history is fetched\<close>













subsection \<open>The goroutine\<close>

text \<open>A hash that left the queue for the fetching set or the local log stays out of it.\<close>

lemma processOne_dispatched:
  "processOne st c e r = (r', x) \<Longrightarrow>
     (\<forall>h. h \<notin> set (queue r) \<and> (h \<in> set (fetching r) \<or> h \<in> oplog st) \<longrightarrow>
          h \<notin> set (queue r') \<and> (h \<in> set (fetching r') \<or> h \<in> oplog st))"
  by (cases rule: processOne_cases [of e st r c]) auto

lemma processItems_dispatched:
  "processItems st c es hl r = (r1, x) \<Longrightarrow>
     (\<forall>h. h \<notin> set (queue r) \<and> (h \<in> set (fetching r) \<or> h \<in> oplog st) \<longrightarrow>
          h \<notin> set (queue r1) \<and> (h \<in> set (fetching r1) \<or> h \<in> oplog st))"
proof (rule processItems_rel [where
      Q = "\<lambda>a b. \<forall>h. h \<notin> set (queue a) \<and> (h \<in> set (fetching a) \<or> h \<in> oplog st) \<longrightarrow>
          h \<notin> set (queue b) \<and> (h \<in> set (fetching b) \<or> h \<in> oplog st)"])
  show "processItems st c es hl r = (r1, x)" if "processItems st c es hl r = (r1, x)"
    by (rule that)
  show "\<forall>h. h \<notin> set (queue r) \<and> (h \<in> set (fetching r) \<or> h \<in> oplog st) \<longrightarrow>
          h \<notin> set (queue r') \<and> (h \<in> set (fetching r') \<or> h \<in> oplog st)"
    if "processOne st c e r = (r', x)" for e r r' x
    using that by (rule processOne_dispatched)
qed (auto simp: mapDelete_def)

lemma traversal_dispatched:
  "processQueue n st c r = Some r' \<Longrightarrow>
     (\<forall>h. h \<notin> set (queue r) \<and> (h \<in> set (fetching r) \<or> h \<in> oplog st) \<longrightarrow>
          h \<notin> set (queue r') \<and> (h \<in> set (fetching r') \<or> h \<in> oplog st))"
  "loadEndLoop n st c k hl r = Some r' \<Longrightarrow>
     (\<forall>h. h \<notin> set (queue r) \<and> (h \<in> set (fetching r) \<or> h \<in> oplog st) \<longrightarrow>
          h \<notin> set (queue r') \<and> (h \<in> set (fetching r') \<or> h \<in> oplog st))"
proof -
  let ?Q = "\<lambda>st a b. \<forall>h. h \<notin> set (queue a) \<and> (h \<in> set (fetching a) \<or> h \<in> oplog st) \<longrightarrow>
          h \<notin> set (queue b) \<and> (h \<in> set (fetching b) \<or> h \<in> oplog st)"
  have i: "?Q st r r1"
    if "\<not> concurrency r \<le> tasksRunning r"
      "processItems st c (rangeItems st (selectItems st r)) [] r = (r1, x)" for st c r r1 x
    using processItems_dispatched [OF that(2)] .
  have f: "?Q st r (flushBuffer k r)" for st k r by (simp add: flushBuffer_eq)
  have g: "?Q st r (loadOne st r h)" for st r h by (auto simp: loadOne_eq)
  have rfl: "?Q st r r" for st r by simp
  have trn: "\<And>st a b c. ?Q st a b \<Longrightarrow> ?Q st b c \<Longrightarrow> ?Q st a c" by blast
  show "processQueue n st c r = Some r' \<Longrightarrow> ?Q st r r'"
    by (rule traversal_rel(1) [where Q = ?Q, OF rfl trn i f g])
  show "loadEndLoop n st c k hl r = Some r' \<Longrightarrow> ?Q st r r'"
    by (rule traversal_rel(2) [where Q = ?Q, OF rfl trn i f g])
qed

text \<open>A round that starts with a queued hash \<open>e\<close> takes it out of the queue for good.\<close>

lemma processQueue_dispatches:
  assumes run: "processQueue n st c r = Some r'" and g: "tasksRunning r < concurrency r"
    and es: "rangeItems st (selectItems st r) = e # es"
  shows "e \<notin> set (queue r') \<and> (e \<in> set (fetching r') \<or> e \<in> oplog st)"
proof -
  obtain m where n: "n = Suc m" using run by (cases n) (simp_all add: processQueue.simps)
  let ?r0 = "r\<lparr>queue := mapDelete e (queue r)\<rparr>"
  obtain r2 y where p: "processOne st c e ?r0 = (r2, y)" by (cases "processOne st c e ?r0")
  have d2: "e \<notin> set (queue r2) \<and> (e \<in> set (fetching r2) \<or> e \<in> oplog st)"
    using p by (cases rule: processOne_cases [of e st ?r0 c]) (auto simp: mapDelete_def)
  have ng: "\<not> concurrency r \<le> tasksRunning r" using g by simp
  show ?thesis
  proof (cases y)
    case (Inl err)
    then have "processItems st c (e # es) [] r = (r2, None)" using p by simp
    then have "r' = r2" using run ng es by (simp add: n processQueue.simps)
    with d2 show ?thesis by simp
  next
    case (Inr hashes)
    obtain r1 x where q: "processItems st c es [hashes] r2 = (r1, x)"
      by (cases "processItems st c es [hashes] r2")
    have d1: "e \<notin> set (queue r1) \<and> (e \<in> set (fetching r1) \<or> e \<in> oplog st)"
      using processItems_dispatched [OF q] d2 by blast
    have all: "processItems st c (e # es) [] r = (r1, x)" using p Inr q by simp
    show ?thesis
    proof (cases x)
      case None
      then have "r' = r1" using run ng es all by (simp add: n processQueue.simps)
      with d1 show ?thesis by simp
    next
      case (Some hl)
      then have "loadEndLoop m st c (length (selectItems st r)) hl r1 = Some r'"
        using run ng es all by (simp add: n processQueue.simps)
      from traversal_dispatched(2) [OF this] d1 show ?thesis by blast
    qed
  qed
qed

text \<open>
  C10. A turn of the goroutine, the context not cancelled, calls \<open>processQueue\<close> if and
  only if \<open>started - processed\<close> is 0 and the queue is not empty, and goes on to the next
  turn from the replicator that call leaves; otherwise it goes on from the replicator as
  it is. A call made this way dispatches: a hash that was queued is out of the queue
  afterwards, in the fetching set or found in the local log. Once the context is
  cancelled the goroutine is over, the replicator as it was, however many turns are
  counted. (A turn stands for the three seconds of the timer.)
\<close>

theorem C10_watchdog:
  "watchdog (Suc k) n st r =
     (if cancelled r then Some r
      else if statsTasksStarted r - statsTasksProcessed r = 0 \<and> queue r \<noteq> []
           then (case processQueue n st False r of
                   None \<Rightarrow> None
                 | Some r' \<Rightarrow> watchdog k n st r')
           else watchdog k n st r) \<and>
   (rangeVisitsKeys st \<and> \<not> cancelled r \<and> statsTasksStarted r - statsTasksProcessed r = 0 \<and>
    queue r \<noteq> [] \<and> length (queue r) < 2 ^ 64 \<and> concurrency r \<noteq> 0 \<and>
    processQueue n st False r = Some r' \<longrightarrow>
      watchdog (Suc k) n st r = watchdog k n st r' \<and>
      (\<exists>h \<in> set (queue r). h \<notin> set (queue r') \<and> (h \<in> set (fetching r') \<or> h \<in> oplog st)))"
proof -
  have a: "watchdog (Suc k) n st r =
     (if cancelled r then Some r
      else if statsTasksStarted r - statsTasksProcessed r = 0 \<and> queue r \<noteq> []
           then (case processQueue n st False r of
                   None \<Rightarrow> None
                 | Some r' \<Rightarrow> watchdog k n st r')
           else watchdog k n st r)"
    by (cases "processQueue n st False r") (simp_all add: watchdogWake_def tasksRunning_def)
  have b: "\<exists>h \<in> set (queue r). h \<notin> set (queue r') \<and> (h \<in> set (fetching r') \<or> h \<in> oplog st)"
    if v: "rangeVisitsKeys st" and t: "statsTasksStarted r - statsTasksProcessed r = 0"
      and q: "queue r \<noteq> []" "length (queue r) < 2 ^ 64" and c: "concurrency r \<noteq> 0"
      and run: "processQueue n st False r = Some r'"
  proof -
    have g: "tasksRunning r < concurrency r" using t c by (simp add: tasksRunning_def word_neq_0_conv)
    have "selectItems st r \<noteq> []" by (rule selectItems_nonempty [OF v q g])
    then have "rangeItems st (selectItems st r) \<noteq> []"
      using rangeVisitsKeysD(4) [OF v, of "selectItems st r"] by auto
    then obtain e es where es: "rangeItems st (selectItems st r) = e # es"
      by (cases "rangeItems st (selectItems st r)") auto
    have "e \<in> set (rangeItems st (selectItems st r))" by (simp add: es)
    then have "e \<in> set (queue r)"
      using selectItems_subset [OF v, of r] rangeVisitsKeysD(3) [OF v] by auto
    with processQueue_dispatches [OF run g es] show ?thesis by blast
  qed
  from a b show ?thesis by auto
qed

theorem C10_watchdog_witness:
  "watchdog (Suc 0) (Suc (Suc 0)) storeA' stalledA = Some finalA \<and>
   statsTasksStarted stalledA - statsTasksProcessed stalledA = 0 \<and> queue stalledA = [''h2''] \<and>
   processQueue (Suc (Suc 0)) storeA' False stalledA = Some finalA \<and>
   ''h2'' \<notin> set (queue finalA) \<and> ''h2'' \<in> set (fetching finalA) \<and>
   statsTasksStarted stuckC - statsTasksProcessed stuckC = 1 \<and> queue stuckC = [''h2''] \<and>
   watchdog (Suc (Suc 0)) (Suc 0) storeA stuckC = Some stuckC \<and>
   watchdog (Suc (Suc 0)) (Suc 0) storeA' (Stop stalledA) = Some (Stop stalledA)"
proof -
  have p: "processQueue (Suc (Suc 0)) storeA' False stalledA = Some finalA"
    by (simp add: run_simps stalledA_def finalA_def)
  have s: "\<not> cancelled stalledA" "statsTasksStarted stalledA - statsTasksProcessed stalledA = 0"
    "queue stalledA = [''h2'']" "queue stalledA \<noteq> []"
    by (simp_all add: stalledA_def)
  have 1: "watchdog (Suc 0) (Suc (Suc 0)) storeA' stalledA = Some finalA"
    using C10_watchdog [of 0 "Suc (Suc 0)" storeA' stalledA] s p by simp
  have c: "\<not> cancelled stuckC" "statsTasksStarted stuckC - statsTasksProcessed stuckC = 1"
    "queue stuckC = [''h2'']"
    by (simp_all add: stuckC_def)
  have 2: "watchdog (Suc 0) (Suc 0) storeA stuckC = Some stuckC"
    using C10_watchdog [of 0 "Suc 0" storeA stuckC] c by simp
  have 3: "watchdog (Suc (Suc 0)) (Suc 0) storeA stuckC = Some stuckC"
    using C10_watchdog [of "Suc 0" "Suc 0" storeA stuckC] c 2 by simp
  have 4: "watchdog (Suc (Suc 0)) (Suc 0) storeA' (Stop stalledA) = Some (Stop stalledA)"
    using C10_watchdog [of "Suc 0" "Suc 0" storeA' "Stop stalledA"] by (simp add: Stop_def)
  have f: "''h2'' \<notin> set (queue finalA)" "''h2'' \<in> set (fetching finalA)"
    by (simp_all add: finalA_def)
  from 1 2 3 4 s c p f show ?thesis by simp
qed


subsection \<open>The buffer between operations\<close>

text \<open>
  Between operations a log stays in the buffer only after a round that a failed fetch
  ended: then more fetches were started than have succeeded.
\<close>

lemma processOne_gap:
  "processOne st c h r = (r', x) \<Longrightarrow>
     length (fetching r) - length (loadProgress (emitted r))
       \<le> length (fetching r') - length (loadProgress (emitted r'))"
  by (cases rule: processOne_cases [of h st r c]) auto

lemma processItems_gap:
  "processItems st c es hl r = (r1, x) \<Longrightarrow>
     length (fetching r) - length (loadProgress (emitted r))
       \<le> length (fetching r1) - length (loadProgress (emitted r1))"
  by (rule processItems_rel [where Q = "\<lambda>a b. length (fetching a) - length (loadProgress (emitted a))
       \<le> length (fetching b) - length (loadProgress (emitted b))"])
     (auto dest: processOne_gap)

lemma traversal_gap:
  "processQueue n st c r = Some r' \<Longrightarrow>
     length (fetching r) - length (loadProgress (emitted r))
       \<le> length (fetching r') - length (loadProgress (emitted r'))"
  "loadEndLoop n st c k hl r = Some r' \<Longrightarrow>
     length (fetching r) - length (loadProgress (emitted r))
       \<le> length (fetching r') - length (loadProgress (emitted r'))"
  "Load n st c cids r = Some r' \<Longrightarrow>
     length (fetching r) - length (loadProgress (emitted r))
       \<le> length (fetching r') - length (loadProgress (emitted r'))"
proof -
  let ?Q = "\<lambda>(st :: store) a b. length (fetching a) - length (loadProgress (emitted a))
       \<le> length (fetching b) - length (loadProgress (emitted b))"
  have i: "?Q st r r1"
    if "\<not> concurrency r \<le> tasksRunning r"
      "processItems st c (rangeItems st (selectItems st r)) [] r = (r1, x)" for st c r r1 x
    using processItems_gap [OF that(2)] .
  have f: "?Q st r (flushBuffer k r)" for st k r by (simp add: flushBuffer_eq)
  have g: "?Q st r (loadOne st r h)" for st r h by (simp add: loadOne_eq)
  have rfl: "?Q st r r" for st r by simp
  have trn: "\<And>st a b c. ?Q st a b \<Longrightarrow> ?Q st b c \<Longrightarrow> ?Q st a c" by simp
  show "processQueue n st c r = Some r' \<Longrightarrow> ?Q st r r'"
    by (rule traversal_rel(1) [where Q = ?Q, OF rfl trn i f g])
  show "loadEndLoop n st c k hl r = Some r' \<Longrightarrow> ?Q st r r'"
    by (rule traversal_rel(2) [where Q = ?Q, OF rfl trn i f g])
  show "Load n st c cids r = Some r' \<Longrightarrow> ?Q st r r'"
    by (rule traversal_rel(3) [where Q = ?Q, OF rfl trn i f g])
qed










end
